theory Spec2Isabelle
  imports Main "HOL-Library.Word"
begin

unbundle bit_operations_syntax

section \<open>Python strings (ASCII fragment)\<close>


definition upper_char :: "char \<Rightarrow> char" where
  "upper_char c =
     (let n = (of_char c :: nat) in if 97 \<le> n \<and> n \<le> 122 then char_of (n - 32) else c)"

definition upper :: "string \<Rightarrow> string" where
  "upper s = map upper_char s"

definition isspace_char :: "char \<Rightarrow> bool" where
  \<comment> \<open>tab, line feed, vertical tab, form feed, carriage return, the four separators
      28 to 31, and space\<close>
  "isspace_char c =
     (let n = (of_char c :: nat) in (9 \<le> n \<and> n \<le> 13) \<or> (28 \<le> n \<and> n \<le> 32))"

definition strip :: "string \<Rightarrow> string" where
  "strip s = rev (dropWhile isspace_char (rev (dropWhile isspace_char s)))"

definition isalpha_char :: "char \<Rightarrow> bool" where
  "isalpha_char c =
     (let n = (of_char c :: nat) in (65 \<le> n \<and> n \<le> 90) \<or> (97 \<le> n \<and> n \<le> 122))"

definition isalpha :: "string \<Rightarrow> bool" where
  \<comment> \<open>\<open>str.isalpha\<close> is false on the empty string\<close>
  "isalpha s = (s \<noteq> [] \<and> list_all isalpha_char s)"

section \<open>Errors\<close>

datatype error =
    NotStarted          \<comment> \<open>RuntimeError: game not started\<close>
  | LengthMismatch nat  \<comment> \<open>ValueError: guess must be n letters long\<close>
  | InvalidCharacters   \<comment> \<open>ValueError: guess must contain only letters\<close>
  | IndexError          \<comment> \<open>sequence index out of range\<close>
  | EmptyWords          \<comment> \<open>ValueError: words list cannot be empty\<close>
  | NoWords             \<comment> \<open>ValueError: no words available for the game\<close>
  | HexValueError       \<comment> \<open>ValueError: invalid literal for int() with base 16\<close>

section \<open>The scorer: letter statuses of \<open>WordGuruGame.check_guess\<close>\<close>

datatype status = Correct | Pending | Present | Absent

datatype mark = Tick | Query | Tilde | Cross

type_synonym feedback = "char \<times> mark"

type_synonym counts = "char \<rightharpoonup> int"

definition dict_get :: "counts \<Rightarrow> char \<Rightarrow> int \<Rightarrow> int" where
  "dict_get m k d = (case m k of None \<Rightarrow> d | Some v \<Rightarrow> v)"

fun count_letters :: "string \<Rightarrow> counts \<Rightarrow> counts" where
  "count_letters [] m = m"
| "count_letters (letter # rest) m =
     count_letters rest (m(letter \<mapsto> dict_get m letter 0 + 1))"

fun first_pass ::
  "string \<Rightarrow> string \<Rightarrow> nat \<Rightarrow> status list \<Rightarrow> feedback list \<Rightarrow> counts
     \<Rightarrow> error + (status list \<times> feedback list \<times> counts)" where
  "first_pass w [] i sts fb used = Inr (sts, fb, used)"
| "first_pass w (letter # rest) i sts fb used =
     (if \<not> i < length w then Inl IndexError
      else if letter = w ! i then
        first_pass w rest (Suc i) (sts @ [Correct]) (fb @ [(letter, Tick)])
          (used(letter \<mapsto> dict_get used letter 0 + 1))
      else
        first_pass w rest (Suc i) (sts @ [Pending]) (fb @ [(letter, Query)]) used)"

fun second_pass ::
  "counts \<Rightarrow> string \<Rightarrow> nat \<Rightarrow> status list \<Rightarrow> feedback list \<Rightarrow> counts
     \<Rightarrow> error + (status list \<times> feedback list)" where
  "second_pass tc [] i sts fb used = Inr (sts, fb)"
| "second_pass tc (letter # rest) i sts fb used =
     (if \<not> i < length sts then Inl IndexError
      else if sts ! i = Pending then
        (let available_count = dict_get tc letter 0 - dict_get used letter 0 in
         if available_count > 0 then
           (if \<not> i < length fb then Inl IndexError
            else second_pass tc rest (Suc i) (sts[i := Present]) (fb[i := (letter, Tilde)])
                   (used(letter \<mapsto> dict_get used letter 0 + 1)))
         else
           (if \<not> i < length fb then Inl IndexError
            else second_pass tc rest (Suc i) (sts[i := Absent]) (fb[i := (letter, Cross)])
                   used))
      else second_pass tc rest (Suc i) sts fb used)"

definition score_guess :: "string \<Rightarrow> string \<Rightarrow> error + (status list \<times> feedback list)" where
  "score_guess w guess =
     (let target_letter_counts = count_letters w Map.empty in
      case first_pass w guess 0 [] [] Map.empty of
        Inl e \<Rightarrow> Inl e
      | Inr (sts, fb, used) \<Rightarrow> second_pass target_letter_counts guess 0 sts fb used)"


subsection \<open>The two passes as list functions\<close>

text \<open>
  The loops above address the status list by index.  For the proofs, the first pass is
  described by \<open>exact\<close>, applied to each pair of a guess letter and a target letter, and
  the second pass by \<open>presence\<close>, which walks the guess letters paired with their
  first-pass statuses.  Lemmas \<open>first_pass_run\<close> and \<open>second_pass_run\<close> show that the
  loops compute exactly these.
\<close>

fun presence :: "counts \<Rightarrow> (char \<times> status) list \<Rightarrow> counts \<Rightarrow> status list" where
  "presence tc [] used = []"
| "presence tc ((letter, st) # rest) used =
     (if st = Pending then
        (if dict_get tc letter 0 - dict_get used letter 0 > 0
         then Present # presence tc rest (used(letter \<mapsto> dict_get used letter 0 + 1))
         else Absent # presence tc rest used)
      else st # presence tc rest used)"

definition exact :: "char \<times> char \<Rightarrow> status" where
  "exact p = (if fst p = snd p then Correct else Pending)"

definition fresh :: "(char \<times> status) list \<Rightarrow> bool" where
  "fresh zs = (\<forall>z \<in> set zs. snd z = Correct \<or> snd z = Pending)"

section \<open>SHA-256 (\<open>hashlib.sha256\<close>)\<close>

type_synonym byte = "8 word"
type_synonym w32 = "32 word"

definition rotr :: "nat \<Rightarrow> w32 \<Rightarrow> w32" where
  "rotr n x = word_rotr n x"

definition Ch :: "w32 \<Rightarrow> w32 \<Rightarrow> w32 \<Rightarrow> w32" where
  "Ch x y z = (x AND y) XOR (NOT x AND z)"

definition Maj :: "w32 \<Rightarrow> w32 \<Rightarrow> w32 \<Rightarrow> w32" where
  "Maj x y z = (x AND y) XOR (x AND z) XOR (y AND z)"

definition Sigma0 :: "w32 \<Rightarrow> w32" where
  "Sigma0 x = rotr 2 x XOR rotr 13 x XOR rotr 22 x"

definition Sigma1 :: "w32 \<Rightarrow> w32" where
  "Sigma1 x = rotr 6 x XOR rotr 11 x XOR rotr 25 x"

definition sigma0 :: "w32 \<Rightarrow> w32" where
  "sigma0 x = rotr 7 x XOR rotr 18 x XOR drop_bit 3 x"

definition sigma1 :: "w32 \<Rightarrow> w32" where
  "sigma1 x = rotr 17 x XOR rotr 19 x XOR drop_bit 10 x"

definition K256 :: "w32 list" where
  \<comment> \<open>the round constants: the first 32 bits of the fractional parts of the cube
      roots of the first 64 primes\<close>
  "K256 =
     [
      1116352408, 1899447441, 3049323471, 3921009573,
      961987163, 1508970993, 2453635748, 2870763221,
      3624381080, 310598401, 607225278, 1426881987,
      1925078388, 2162078206, 2614888103, 3248222580,
      3835390401, 4022224774, 264347078, 604807628,
      770255983, 1249150122, 1555081692, 1996064986,
      2554220882, 2821834349, 2952996808, 3210313671,
      3336571891, 3584528711, 113926993, 338241895,
      666307205, 773529912, 1294757372, 1396182291,
      1695183700, 1986661051, 2177026350, 2456956037,
      2730485921, 2820302411, 3259730800, 3345764771,
      3516065817, 3600352804, 4094571909, 275423344,
      430227734, 506948616, 659060556, 883997877,
      958139571, 1322822218, 1537002063, 1747873779,
      1955562222, 2024104815, 2227730452, 2361852424,
      2428436474, 2756734187, 3204031479, 3329325298
     ]"

definition H256 :: "w32 list" where
  \<comment> \<open>the initial hash value: the first 32 bits of the fractional parts of the square
      roots of the first 8 primes\<close>
  "H256 =
     [
      1779033703, 3144134277, 1013904242, 2773480762,
      1359893119, 2600822924, 528734635, 1541459225
     ]"

definition be_bytes :: "nat \<Rightarrow> int \<Rightarrow> byte list" where
  \<comment> \<open>the \<open>n\<close> low-order bytes of \<open>x\<close>, most significant first\<close>
  "be_bytes n x = map (\<lambda>i. word_of_int (x div 256 ^ (n - 1 - i))) [0 ..< n]"

definition be_value :: "byte list \<Rightarrow> int" where
  \<comment> \<open>the unsigned integer a byte sequence denotes, most significant byte first\<close>
  "be_value bs = foldl (\<lambda>a b. 256 * a + uint b) 0 bs"

definition pad :: "byte list \<Rightarrow> byte list" where
  "pad m =
     m @ [0x80] @ replicate ((119 - length m mod 64) mod 64) 0 @ be_bytes 8 (8 * int (length m))"

fun chunks :: "nat \<Rightarrow> nat \<Rightarrow> 'a list \<Rightarrow> 'a list list" where
  \<comment> \<open>the first \<open>k\<close> consecutive pieces of \<open>n\<close> elements\<close>
  "chunks n 0 xs = []"
| "chunks n (Suc k) xs = take n xs # chunks n k (drop n xs)"

fun extend :: "nat \<Rightarrow> w32 list \<Rightarrow> w32 list" where
  "extend 0 ws = ws"
| "extend (Suc k) ws =
     (let t = length ws in
      extend k (ws @ [sigma1 (ws ! (t - 2)) + ws ! (t - 7) + sigma0 (ws ! (t - 15)) + ws ! (t - 16)]))"

definition schedule :: "byte list \<Rightarrow> w32 list" where
  "schedule block = extend 48 (map (\<lambda>bs. word_of_int (be_value bs)) (chunks 4 16 block))"

type_synonym hstate = "w32 \<times> w32 \<times> w32 \<times> w32 \<times> w32 \<times> w32 \<times> w32 \<times> w32"

fun round256 :: "hstate \<Rightarrow> w32 \<times> w32 \<Rightarrow> hstate" where
  "round256 (a, b, c, d, e, f, g, h) (k, w) =
     (let t1 = h + Sigma1 e + Ch e f g + k + w;
          t2 = Sigma0 a + Maj a b c
      in (t1 + t2, a, b, c, d + t1, e, f, g))"

fun compress :: "hstate \<Rightarrow> byte list \<Rightarrow> hstate" where
  "compress (a, b, c, d, e, f, g, h) block =
     (case foldl round256 (a, b, c, d, e, f, g, h) (zip K256 (schedule block)) of
        (a', b', c', d', e', f', g', h') \<Rightarrow>
          (a + a', b + b', c + c', d + d', e + e', f + f', g + g', h + h'))"

definition sha256 :: "byte list \<Rightarrow> byte list" where
  "sha256 m =
     (let p = pad m in
      case foldl compress
             (H256 ! 0, H256 ! 1, H256 ! 2, H256 ! 3, H256 ! 4, H256 ! 5, H256 ! 6, H256 ! 7)
             (chunks 64 (length p div 64) p) of
        (a, b, c, d, e, f, g, h) \<Rightarrow>
          concat (map (\<lambda>x. be_bytes 4 (uint x)) [a, b, c, d, e, f, g, h]))"

definition encode :: "string \<Rightarrow> byte list" where
  \<comment> \<open>\<open>str.encode()\<close> on ASCII text: one byte per character\<close>
  "encode s = map (\<lambda>c. of_char c) s"

definition hex_digit :: "nat \<Rightarrow> char" where
  "hex_digit n = ''0123456789abcdef'' ! (n mod 16)"

definition hexdigest :: "byte list \<Rightarrow> string" where
  "hexdigest bs = concat (map (\<lambda>b. [hex_digit (unat b div 16), hex_digit (unat b mod 16)]) bs)"

section \<open>Daily word (\<open>daily.py\<close>)\<close>

definition hex_digit_value :: "char \<Rightarrow> int option" where
  "hex_digit_value c =
     (let n = (of_char c :: int) in
      if 48 \<le> n \<and> n \<le> 57 then Some (n - 48)
      else if 97 \<le> n \<and> n \<le> 102 then Some (n - 87)
      else if 65 \<le> n \<and> n \<le> 70 then Some (n - 55)
      else None)"

fun hex_digits_value :: "int \<Rightarrow> string \<Rightarrow> int option" where
  "hex_digits_value acc [] = Some acc"
| "hex_digits_value acc (c # cs) =
     (case hex_digit_value c of None \<Rightarrow> None | Some d \<Rightarrow> hex_digits_value (16 * acc + d) cs)"

definition int_base16 :: "string \<Rightarrow> int option" where
  \<comment> \<open>\<open>int(s, 16)\<close> on the strings it is applied to here, non-empty runs of hexadecimal
      digits; \<open>None\<close> on every other string\<close>
  "int_base16 s = (if s = [] then None else hex_digits_value 0 s)"

record date =
  year :: nat
  month :: nat
  day :: nat

fun digits :: "nat \<Rightarrow> nat \<Rightarrow> string" where
  \<comment> \<open>\<open>digits k n\<close>: the last \<open>k\<close> decimal digits of \<open>n\<close>, zero-padded\<close>
  "digits 0 n = []"
| "digits (Suc k) n = digits k (n div 10) @ [char_of (48 + n mod 10)]"

definition str_date :: "date \<Rightarrow> string" where
  \<comment> \<open>\<open>str(date)\<close>, the ISO format \<open>%04d-%02d-%02d\<close>; a \<open>datetime.date\<close> has a year from
      1 to 9999, a month from 1 to 12 and a day from 1 to 31\<close>
  "str_date d = digits 4 (year d) @ ''-'' @ digits 2 (month d) @ ''-'' @ digits 2 (day d)"

definition select_daily_word :: "string list \<Rightarrow> date option \<Rightarrow> date \<Rightarrow> error + string" where
  \<comment> \<open>the third argument is the current UTC date, read when no date is given\<close>
  "select_daily_word words date_arg today =
     (if words = [] then Inl EmptyWords
      else
        let date = (case date_arg of None \<Rightarrow> today | Some d \<Rightarrow> d);
            date_string = str_date date;
            hash_hex = hexdigest (sha256 (encode date_string))
        in case int_base16 (take 8 hash_hex) of
             None \<Rightarrow> Inl HexValueError
           | Some seed \<Rightarrow>
               let word_index = seed mod int (length words)
               in Inr (strip (upper (words ! nat word_index))))"

section \<open>Python values and the JSON library\<close>

datatype pyval =
    PNone
  | PBool bool
  | PInt int
  | PStr string
  | PList "pyval list"
  | PDict "(string \<times> pyval) list"

record codec =
  loads :: "string \<Rightarrow> pyval option"   \<comment> \<open>\<open>json.loads\<close>; \<open>None\<close> is JSONDecodeError\<close>
  dumps :: "pyval \<Rightarrow> string"          \<comment> \<open>the text \<open>json.dump(_, f, indent=2, ensure_ascii=False)\<close> writes\<close>

section \<open>Files\<close>

type_synonym path = "string list"

datatype node = File string | Dir

type_synonym fs = "path \<rightharpoonup> node"

datatype oserror = FileNotFoundError | IsADirectoryError | NotADirectoryError | FileExistsError

definition is_dir :: "fs \<Rightarrow> path \<Rightarrow> bool" where
  \<comment> \<open>the empty path is the directory all paths start from\<close>
  "is_dir files p = (p = [] \<or> files p = Some Dir)"

definition path_exists :: "fs \<Rightarrow> path \<Rightarrow> bool" where
  "path_exists files p = (p = [] \<or> files p \<noteq> None)"

definition parent :: "path \<Rightarrow> path" where
  "parent p = butlast p"

definition read_text :: "fs \<Rightarrow> path \<Rightarrow> oserror + string" where
  "read_text files p =
     (if p = [] then Inl IsADirectoryError
      else case files p of
             None \<Rightarrow> Inl FileNotFoundError
           | Some Dir \<Rightarrow> Inl IsADirectoryError
           | Some (File text) \<Rightarrow> Inr text)"

definition write_text :: "fs \<Rightarrow> path \<Rightarrow> string \<Rightarrow> oserror + fs" where
  \<comment> \<open>\<open>open(path, 'w')\<close> and one write: the directory of the file must exist\<close>
  "write_text files p text =
     (if is_dir files p then Inl IsADirectoryError
      else if \<not> path_exists files (parent p) then Inl FileNotFoundError
      else if \<not> is_dir files (parent p) then Inl NotADirectoryError
      else Inr (files(p \<mapsto> File text)))"

fun mkdir_each :: "fs \<Rightarrow> path list \<Rightarrow> oserror + fs" where
  "mkdir_each files [] = Inr files"
| "mkdir_each files (q # qs) =
     (if is_dir files q then mkdir_each files qs
      else if path_exists files q then Inl FileExistsError
      else mkdir_each (files(q \<mapsto> Dir)) qs)"

definition mkdir_parents :: "fs \<Rightarrow> path \<Rightarrow> oserror + fs" where
  \<comment> \<open>\<open>Path.mkdir(parents=True, exist_ok=True)\<close>: every missing directory on the way
      is created, from the outermost; a file on the way is an error\<close>
  "mkdir_parents files p = mkdir_each files (map (\<lambda>n. take n p) [1 ..< Suc (length p)])"

section \<open>Score store (\<open>persistence.py\<close>)\<close>

datatype perror =
    LoadError             \<comment> \<open>RuntimeError: error loading scores\<close>
  | UnexpectedLoadError   \<comment> \<open>RuntimeError: unexpected error loading scores\<close>
  | SaveError             \<comment> \<open>RuntimeError: error saving score\<close>
  | NotADict              \<comment> \<open>ValueError: score must be a dictionary\<close>
  | MissingFields         \<comment> \<open>ValueError: score missing required fields\<close>
  | BadField string       \<comment> \<open>ValueError: score field must be of its type\<close>

definition load_scores :: "codec \<Rightarrow> fs \<Rightarrow> path \<Rightarrow> perror + pyval list" where
  "load_scores js files p =
     (if \<not> path_exists files p then Inr []
      else case read_text files p of
        Inl e \<Rightarrow> Inl UnexpectedLoadError
      | Inr text \<Rightarrow>
          (let content = strip text in
           if content = [] then Inr []
           else case loads js content of
             None \<Rightarrow> Inl LoadError
           | Some (PList scores) \<Rightarrow> Inr scores
           | Some _ \<Rightarrow> Inl LoadError))"

definition required_fields :: "string list" where
  "required_fields = [''player'', ''word'', ''attempts'', ''won'', ''date'']"

definition isinstance_str :: "pyval \<Rightarrow> bool" where
  "isinstance_str v = (case v of PStr _ \<Rightarrow> True | _ \<Rightarrow> False)"

definition isinstance_bool :: "pyval \<Rightarrow> bool" where
  "isinstance_bool v = (case v of PBool _ \<Rightarrow> True | _ \<Rightarrow> False)"

definition isinstance_int :: "pyval \<Rightarrow> bool" where
  \<comment> \<open>\<open>bool\<close> is a subclass of \<open>int\<close>\<close>
  "isinstance_int v = (case v of PInt _ \<Rightarrow> True | PBool _ \<Rightarrow> True | _ \<Rightarrow> False)"

definition int_value :: "pyval \<Rightarrow> int" where
  \<comment> \<open>the number an \<open>int\<close> instance compares as: \<open>True\<close> is 1, \<open>False\<close> is 0\<close>
  "int_value v = (case v of PInt n \<Rightarrow> n | PBool b \<Rightarrow> (if b then 1 else 0) | _ \<Rightarrow> 0)"

definition validate_score :: "pyval \<Rightarrow> perror + (string \<times> pyval) list" where
  "validate_score score =
     (case score of
        PDict d \<Rightarrow>
          (if \<not> list_all (\<lambda>k. map_of d k \<noteq> None) required_fields then Inl MissingFields
           else if \<not> isinstance_str (the (map_of d ''player'')) then Inl (BadField ''player'')
           else if \<not> isinstance_str (the (map_of d ''word'')) then Inl (BadField ''word'')
           else if \<not> isinstance_int (the (map_of d ''attempts''))
                   \<or> int_value (the (map_of d ''attempts'')) < 0 then Inl (BadField ''attempts'')
           else if \<not> isinstance_bool (the (map_of d ''won'')) then Inl (BadField ''won'')
           else if \<not> isinstance_str (the (map_of d ''date'')) then Inl (BadField ''date'')
           else Inr d)
      | _ \<Rightarrow> Inl NotADict)"

definition save_score :: "codec \<Rightarrow> fs \<Rightarrow> path \<Rightarrow> pyval \<Rightarrow> (perror + unit) \<times> fs" where
  \<comment> \<open>the result pairs the outcome with the files as the call leaves them\<close>
  "save_score js files p score =
     (case validate_score score of
        Inl e \<Rightarrow> (Inl e, files)
      | Inr _ \<Rightarrow>
          (case load_scores js files p of
             Inl e \<Rightarrow> (Inl SaveError, files)
           | Inr scores \<Rightarrow>
               (case mkdir_parents files (parent p) of
                  Inl e \<Rightarrow> (Inl SaveError, files)
                | Inr files1 \<Rightarrow>
                    (case write_text files1 p (dumps js (PList (scores @ [score]))) of
                       Inl e \<Rightarrow> (Inl SaveError, files1)
                     | Inr files2 \<Rightarrow> (Inr (), files2)))))"

definition create_score :: "string \<Rightarrow> string \<Rightarrow> string \<Rightarrow> int \<Rightarrow> bool \<Rightarrow> pyval" where
  \<comment> \<open>the first argument is the timestamp \<open>datetime.now(timezone.utc)\<close> gives, in ISO
      format with the suffix Z\<close>
  "create_score now player word attempts won =
     PDict [(''player'', PStr player), (''word'', PStr word), (''attempts'', PInt attempts),
            (''won'', PBool won), (''date'', PStr now)]"

section \<open>A reference JSON codec\<close>

text \<open>
  The functions of the score store take the JSON library as a parameter.  This section
  gives one instance, for the values of \<open>pyval\<close> over ASCII text: a writer that lays
  values out as \<open>json.dump\<close> does with \<open>indent=2\<close>, and a reader for JSON texts
  without fractions, exponents and \<open>\\u\<close> escapes.  It serves where a concrete library is
  needed to run the store.
\<close>

fun show_nat :: "nat \<Rightarrow> nat \<Rightarrow> string" where
  \<comment> \<open>decimal digits of \<open>n\<close>; the first argument bounds their number\<close>
  "show_nat 0 n = []"
| "show_nat (Suc k) n =
     (if n < 10 then [char_of (48 + n)] else show_nat k (n div 10) @ [char_of (48 + n mod 10)])"

definition show_int :: "int \<Rightarrow> string" where
  "show_int i = (if i < 0 then CHR ''-'' # show_nat (nat (- i)) (nat (- i)) else show_nat (Suc (nat i)) (nat i))"

definition escape_char :: "char \<Rightarrow> string" where
  "escape_char c =
     (let n = (of_char c :: nat) in
      if n = 34 then [CHR 0x5C, CHR 0x22]
      else if n = 92 then [CHR 0x5C, CHR 0x5C]
      else if n = 10 then [CHR 0x5C, CHR ''n'']
      else if n = 13 then [CHR 0x5C, CHR ''r'']
      else if n = 9 then [CHR 0x5C, CHR ''t'']
      else if n = 8 then [CHR 0x5C, CHR ''b'']
      else if n = 12 then [CHR 0x5C, CHR ''f'']
      else if n < 32 then [CHR 0x5C, CHR ''u'', CHR ''0'', CHR ''0'', hex_digit (n div 16), hex_digit (n mod 16)]
      else [c])"

definition quote :: "string \<Rightarrow> string" where
  "quote s = CHR 0x22 # concat (map escape_char s) @ [CHR 0x22]"

definition newline_indent :: "nat \<Rightarrow> string" where
  "newline_indent level = CHR 0x0A # replicate (2 * level) CHR '' ''"

fun join :: "string \<Rightarrow> string list \<Rightarrow> string" where
  "join sep [] = []"
| "join sep [x] = x"
| "join sep (x # y # ys) = x @ sep @ join sep (y # ys)"

fun dump_value :: "nat \<Rightarrow> pyval \<Rightarrow> string" where
  "dump_value level PNone = ''null''"
| "dump_value level (PBool b) = (if b then ''true'' else ''false'')"
| "dump_value level (PInt i) = show_int i"
| "dump_value level (PStr s) = quote s"
| "dump_value level (PList xs) =
     (if xs = [] then ''[]''
      else ''['' @ newline_indent (Suc level)
           @ join (CHR '','' # newline_indent (Suc level)) (map (dump_value (Suc level)) xs)
           @ newline_indent level @ '']'')"
| "dump_value level (PDict kvs) =
     (if kvs = [] then ''{}''
      else ''{'' @ newline_indent (Suc level)
           @ join (CHR '','' # newline_indent (Suc level))
               (map (\<lambda>kv. quote (fst kv) @ '': '' @ dump_value (Suc level) (snd kv)) kvs)
           @ newline_indent level @ ''}'')"

definition json_ws :: "char \<Rightarrow> bool" where
  "json_ws c = (let n = (of_char c :: nat) in n = 32 \<or> n = 9 \<or> n = 10 \<or> n = 13)"

definition skip_ws :: "string \<Rightarrow> string" where
  "skip_ws s = dropWhile json_ws s"

definition is_digit :: "char \<Rightarrow> bool" where
  "is_digit c = (let n = (of_char c :: nat) in 48 \<le> n \<and> n \<le> 57)"

definition digits_value :: "string \<Rightarrow> int" where
  "digits_value ds = foldl (\<lambda>a c. 10 * a + (of_char c - 48)) 0 ds"

definition parse_number :: "string \<Rightarrow> (pyval \<times> string) option" where
  \<comment> \<open>an optional minus sign, then 0 or a run of digits that does not start with 0;
      a fraction or an exponent is not read\<close>
  "parse_number s =
     (let neg = (s \<noteq> [] \<and> hd s = CHR ''-'');
          body = (if neg then tl s else s);
          ds = takeWhile is_digit body;
          rest = dropWhile is_digit body
      in if ds = [] \<or> (length ds > 1 \<and> hd ds = CHR ''0'') then None
         else if rest \<noteq> [] \<and> hd rest \<in> set ''.eE'' then None
         else Some (PInt (if neg then - digits_value ds else digits_value ds), rest))"

fun parse_chars :: "string \<Rightarrow> string \<Rightarrow> (string \<times> string) option" where
  \<comment> \<open>the characters of a string literal after its opening quote, up to the closing one\<close>
  "parse_chars acc [] = None"
| "parse_chars acc (c # cs) =
     (if c = CHR 0x22 then Some (rev acc, cs)
      else if c = CHR 0x5C then
        (case cs of
           [] \<Rightarrow> None
         | e # cs' \<Rightarrow>
             (if e = CHR 0x22 \<or> e = CHR 0x5C \<or> e = CHR ''/'' then parse_chars (e # acc) cs'
              else if e = CHR ''n'' then parse_chars (CHR 0x0A # acc) cs'
              else if e = CHR ''r'' then parse_chars (CHR 0x0D # acc) cs'
              else if e = CHR ''t'' then parse_chars (CHR 0x09 # acc) cs'
              else if e = CHR ''b'' then parse_chars (CHR 0x08 # acc) cs'
              else if e = CHR ''f'' then parse_chars (CHR 0x0C # acc) cs'
              else None))
      else if (of_char c :: nat) < 32 then None
      else parse_chars (c # acc) cs)"

definition dict_put :: "(string \<times> pyval) list \<Rightarrow> string \<Rightarrow> pyval \<Rightarrow> (string \<times> pyval) list" where
  \<comment> \<open>a repeated key keeps its place and takes the later value\<close>
  "dict_put d k v =
     (if map_of d k = None then d @ [(k, v)] else map (\<lambda>kv. if fst kv = k then (k, v) else kv) d)"

fun parse_value :: "nat \<Rightarrow> string \<Rightarrow> (pyval \<times> string) option"
  and parse_items :: "nat \<Rightarrow> pyval list \<Rightarrow> string \<Rightarrow> (pyval \<times> string) option"
  and parse_members :: "nat \<Rightarrow> (string \<times> pyval) list \<Rightarrow> string \<Rightarrow> (pyval \<times> string) option"
where
  "parse_value 0 s = None"
| "parse_value (Suc n) s =
     (case s of
        [] \<Rightarrow> None
      | c # cs \<Rightarrow>
          if take 4 s = ''null'' then Some (PNone, drop 4 s)
          else if take 4 s = ''true'' then Some (PBool True, drop 4 s)
          else if take 5 s = ''false'' then Some (PBool False, drop 5 s)
          else if c = CHR 0x22 then
            (case parse_chars [] cs of None \<Rightarrow> None | Some (str, rest) \<Rightarrow> Some (PStr str, rest))
          else if c = CHR ''['' then
            (case skip_ws cs of
               [] \<Rightarrow> None
             | d # ds \<Rightarrow> if d = CHR '']'' then Some (PList [], ds) else parse_items n [] (d # ds))
          else if c = CHR ''{'' then
            (case skip_ws cs of
               [] \<Rightarrow> None
             | d # ds \<Rightarrow> if d = CHR ''}'' then Some (PDict [], ds) else parse_members n [] (d # ds))
          else parse_number s)"
| "parse_items 0 acc s = None"
| "parse_items (Suc n) acc s =
     (case parse_value n s of
        None \<Rightarrow> None
      | Some (v, rest) \<Rightarrow>
          (case skip_ws rest of
             [] \<Rightarrow> None
           | d # ds \<Rightarrow>
               if d = CHR '','' then parse_items n (acc @ [v]) (skip_ws ds)
               else if d = CHR '']'' then Some (PList (acc @ [v]), ds)
               else None))"
| "parse_members 0 acc s = None"
| "parse_members (Suc n) acc s =
     (case s of
        [] \<Rightarrow> None
      | q # qs \<Rightarrow>
          if q \<noteq> CHR 0x22 then None
          else
            (case parse_chars [] qs of
               None \<Rightarrow> None
             | Some (k, rest) \<Rightarrow>
                 (case skip_ws rest of
                    [] \<Rightarrow> None
                  | c # cs \<Rightarrow>
                      if c \<noteq> CHR '':'' then None
                      else
                        (case parse_value n (skip_ws cs) of
                           None \<Rightarrow> None
                         | Some (v, rest') \<Rightarrow>
                             (case skip_ws rest' of
                                [] \<Rightarrow> None
                              | d # ds \<Rightarrow>
                                  if d = CHR '','' then parse_members n (dict_put acc k v) (skip_ws ds)
                                  else if d = CHR ''}'' then Some (PDict (dict_put acc k v), ds)
                                  else None)))))"

definition json_loads :: "string \<Rightarrow> pyval option" where
  "json_loads s =
     (case parse_value (2 * length s + 2) (skip_ws s) of
        None \<Rightarrow> None
      | Some (v, rest) \<Rightarrow> if skip_ws rest = [] then Some v else None)"

definition json_ref :: codec where
  "json_ref = \<lparr>loads = json_loads, dumps = dump_value 0\<rparr>"

section \<open>The game (\<open>game.py\<close>)\<close>

record game =
  word_list :: "string list"
  max_attempts :: int
  scores_path :: "path option"
  player :: string
  daily_mode :: bool
  current_word :: "string option"
  attempts :: "string list"
  game_over :: bool
  won :: bool

record world =
  files :: fs       \<comment> \<open>the file system\<close>
  now :: string     \<comment> \<open>the ISO timestamp the clock gives\<close>
  today :: date     \<comment> \<open>the UTC date the clock gives\<close>
  json :: codec     \<comment> \<open>the JSON library\<close>

definition init :: "string list \<Rightarrow> int \<Rightarrow> path option \<Rightarrow> string \<Rightarrow> bool \<Rightarrow> game" where
  "init words n sp pl daily =
     \<lparr>word_list = map (\<lambda>word. strip (upper word)) words, max_attempts = n, scores_path = sp,
      player = pl, daily_mode = daily, current_word = None, attempts = [],
      game_over = False, won = False\<rparr>"

definition start_game :: "world \<Rightarrow> nat \<Rightarrow> game \<Rightarrow> error + game" where
  \<comment> \<open>the second argument is the position \<open>random.choice\<close> draws\<close>
  "start_game w pick g =
     (if word_list g = [] then Inl NoWords
      else
        case (if daily_mode g then select_daily_word (word_list g) None (today w)
              else Inr (word_list g ! (pick mod length (word_list g)))) of
          Inl e \<Rightarrow> Inl e
        | Inr word \<Rightarrow>
            Inr (g\<lparr>current_word := Some word, attempts := [], game_over := False, won := False\<rparr>))"

definition save_game_score :: "world \<Rightarrow> game \<Rightarrow> fs" where
  \<comment> \<open>\<open>_save_game_score\<close>: every exception of the store is caught and reported\<close>
  "save_game_score w g =
     (case (scores_path g, current_word g) of
        (Some p, Some word) \<Rightarrow>
          snd (save_score (json w) (files w) p
                 (create_score (now w) (player g) word (int (length (attempts g))) (won g)))
      | _ \<Rightarrow> files w)"

definition check_guess ::
  "world \<Rightarrow> game \<Rightarrow> string \<Rightarrow> (error + (status list \<times> feedback list)) \<times> game \<times> fs" where
  \<comment> \<open>the result pairs what the call returns or raises with the session and the files
      as the call leaves them\<close>
  "check_guess w g raw =
     (case current_word g of
        None \<Rightarrow> (Inl NotStarted, g, files w)
      | Some word \<Rightarrow>
          (let guess = strip (upper raw) in
           if length guess \<noteq> length word then (Inl (LengthMismatch (length word)), g, files w)
           else if \<not> isalpha guess then (Inl InvalidCharacters, g, files w)
           else
             (let g1 = g\<lparr>attempts := attempts g @ [guess]\<rparr> in
              case score_guess word guess of
                Inl e \<Rightarrow> (Inl e, g1, files w)
              | Inr feedback \<Rightarrow>
                  (let g2 = (if guess = word then g1\<lparr>won := True, game_over := True\<rparr> else g1);
                       g3 = (if int (length (attempts g2)) \<ge> max_attempts g2
                             then g2\<lparr>game_over := True\<rparr> else g2);
                       files' = (if game_over g3 then save_game_score w g3 else files w)
                   in (Inr feedback, g3, files')))))"

fun play :: "world \<Rightarrow> game \<Rightarrow> string list \<Rightarrow> game \<times> fs" where
  \<comment> \<open>a sequence of calls of \<open>check_guess\<close>, each on the session and the files the
      previous one left\<close>
  "play w g [] = (g, files w)"
| "play w g (raw # rest) =
     (case check_guess w g raw of (r, g', files') \<Rightarrow> play (w\<lparr>files := files'\<rparr>) g' rest)"

subsection \<open>The pattern of a valid guess\<close>



section \<open>Example sessions\<close>

definition demo_world :: world where
  "demo_world = \<lparr>files = Map.empty, now = ''2024-06-15T12:00:00Z'',
                  today = \<lparr>year = 2024, month = 6, day = 15\<rparr>, json = json_ref\<rparr>"

definition demo_started :: "int \<Rightarrow> game" where
  \<comment> \<open>a session on the one-word list APPLE, started, with the given number of attempts\<close>
  "demo_started n = (init [''apple''] n None ''anonymous'' False)\<lparr>current_word := Some ''APPLE''\<rparr>"



section \<open>Example stores\<close>


definition bool_record :: "bool \<Rightarrow> pyval" where
  "bool_record b = PDict [(''player'', PStr ''p''), (''word'', PStr ''W''),
     (''attempts'', PBool b), (''won'', PBool True), (''date'', PStr ''2024-01-01T12:00:00Z'')]"

definition demo_path :: path where
  "demo_path = [''data'', ''scores.json'']"



definition store_with :: "string \<Rightarrow> fs" where
  \<comment> \<open>a directory \<open>data\<close> holding the file \<open>scores.json\<close> with the given text\<close>
  "store_with text = [[''data''] \<mapsto> Dir, demo_path \<mapsto> File text]"


section \<open>Properties of the scorer\<close>

lemma dict_get_upd [simp]:
  "dict_get (m(k \<mapsto> v)) c d = (if c = k then v else dict_get m c d)"
  by (simp add: dict_get_def)

lemma dict_get_empty: "dict_get Map.empty c d = d"
  by (simp add: dict_get_def)

lemma count_letters_get:
  "dict_get (count_letters w m) c 0 = dict_get m c 0 + int (count_list w c)"
  by (induction w arbitrary: m) auto

lemma count_letters_empty:
  "dict_get (count_letters w Map.empty) c 0 = int (count_list w c)"
  by (simp add: count_letters_get dict_get_empty)

lemma first_pass_run:
  "i + length g \<le> length w \<Longrightarrow>
   \<exists>fb' used'. first_pass w g i sts fb used =
       Inr (sts @ map exact (zip g (drop i w)), fb', used')
     \<and> length fb' = length fb + length g
     \<and> (\<forall>c. dict_get used' c 0 = dict_get used c 0
            + int (length (filter (\<lambda>p. fst p = c \<and> snd p = c) (zip g (drop i w)))))"
proof (induction g arbitrary: i sts fb used)
  case Nil
  then show ?case by simp
next
  case (Cons letter rest)
  then have i: "i < length w" and le: "Suc i + length rest \<le> length w" by simp_all
  have dr: "drop i w = w ! i # drop (Suc i) w"
    using i by (simp add: Cons_nth_drop_Suc)
  show ?case
  proof (cases "letter = w ! i")
    case True
    from Cons.IH [OF le, of "sts @ [Correct]" "fb @ [(letter, Tick)]"
        "used(letter \<mapsto> dict_get used letter 0 + 1)"]
    obtain fb' used' where
      r: "first_pass w rest (Suc i) (sts @ [Correct]) (fb @ [(letter, Tick)])
            (used(letter \<mapsto> dict_get used letter 0 + 1)) =
          Inr ((sts @ [Correct]) @ map exact (zip rest (drop (Suc i) w)), fb', used')"
      and l: "length fb' = length (fb @ [(letter, Tick)]) + length rest"
      and u: "\<And>c. dict_get used' c 0 =
            dict_get (used(letter \<mapsto> dict_get used letter 0 + 1)) c 0
            + int (length (filter (\<lambda>p. fst p = c \<and> snd p = c) (zip rest (drop (Suc i) w))))"
      by blast
    have "first_pass w (letter # rest) i sts fb used =
        Inr (sts @ map exact (zip (letter # rest) (drop i w)), fb', used')"
      using i True dr r by (simp add: exact_def)
    moreover have "length fb' = length fb + length (letter # rest)"
      using l by simp
    moreover have "\<forall>c. dict_get used' c 0 = dict_get used c 0
        + int (length (filter (\<lambda>p. fst p = c \<and> snd p = c) (zip (letter # rest) (drop i w))))"
      using True dr by (simp add: u)
    ultimately show ?thesis by blast
  next
    case False
    from Cons.IH [OF le, of "sts @ [Pending]" "fb @ [(letter, Query)]" used]
    obtain fb' used' where
      r: "first_pass w rest (Suc i) (sts @ [Pending]) (fb @ [(letter, Query)]) used =
          Inr ((sts @ [Pending]) @ map exact (zip rest (drop (Suc i) w)), fb', used')"
      and l: "length fb' = length (fb @ [(letter, Query)]) + length rest"
      and u: "\<And>c. dict_get used' c 0 = dict_get used c 0
            + int (length (filter (\<lambda>p. fst p = c \<and> snd p = c) (zip rest (drop (Suc i) w))))"
      by blast
    have "first_pass w (letter # rest) i sts fb used =
        Inr (sts @ map exact (zip (letter # rest) (drop i w)), fb', used')"
      using i False dr r by (simp add: exact_def)
    moreover have "length fb' = length fb + length (letter # rest)"
      using l by simp
    moreover have "\<forall>c. dict_get used' c 0 = dict_get used c 0
        + int (length (filter (\<lambda>p. fst p = c \<and> snd p = c) (zip (letter # rest) (drop i w))))"
      using False dr by (auto simp add: u)
    ultimately show ?thesis by blast
  qed
qed

lemma second_pass_run:
  "i + length g = length sts \<Longrightarrow> length fb = length sts \<Longrightarrow>
   \<exists>fb'. second_pass tc g i sts fb used =
       Inr (take i sts @ presence tc (zip g (drop i sts)) used, fb')
     \<and> length fb' = length fb"
proof (induction g arbitrary: i sts fb used)
  case Nil
  then show ?case by simp
next
  case (Cons letter rest)
  then have i: "i < length sts" and ifb: "i < length fb" by simp_all
  have dr: "drop i sts = sts ! i # drop (Suc i) sts"
    using i by (simp add: Cons_nth_drop_Suc)
  have step: "\<exists>fb'. second_pass tc rest (Suc i) (sts[i := v]) fb0 used0 =
        Inr (take i sts @ v # presence tc (zip rest (drop (Suc i) sts)) used0, fb')
      \<and> length fb' = length fb"
    if "length fb0 = length fb" for v fb0 used0
  proof -
    have "take (Suc i) (sts[i := v]) = take i sts @ [v]"
      using i by (simp add: take_Suc_conv_app_nth)
    moreover have "drop (Suc i) (sts[i := v]) = drop (Suc i) sts"
      by simp
    ultimately show ?thesis
      using Cons.IH [of "Suc i" "sts[i := v]" fb0 used0] Cons.prems that by simp
  qed
  show ?case
  proof (cases "sts ! i = Pending")
    case False
    from step [of fb "sts ! i" used] show ?thesis
      using i False dr by simp
  next
    case True
    show ?thesis
    proof (cases "dict_get tc letter 0 - dict_get used letter 0 > 0")
      case av: True
      from step [of "fb[i := (letter, Tilde)]" Present
          "used(letter \<mapsto> dict_get used letter 0 + 1)"]
      show ?thesis using i ifb True av dr by (simp add: Let_def)
    next
      case av: False
      from step [of "fb[i := (letter, Cross)]" Absent used]
      show ?thesis using i ifb True av dr by (simp add: Let_def)
    qed
  qed
qed

lemma score_guess_run:
  assumes "length w = length g"
  shows "\<exists>fb used. score_guess w g =
      Inr (presence (count_letters w Map.empty) (zip g (map exact (zip g w))) used, fb)
    \<and> length fb = length g
    \<and> (\<forall>c. dict_get used c 0 = int (length (filter (\<lambda>p. fst p = c \<and> snd p = c) (zip g w))))"
proof -
  from first_pass_run [of 0 g w "[]" "[]" Map.empty] assms
  obtain fb1 used1 where
    fp: "first_pass w g 0 [] [] Map.empty = Inr (map exact (zip g w), fb1, used1)"
    and l1: "length fb1 = length g"
    and u1: "\<forall>c. dict_get used1 c 0 = int (length (filter (\<lambda>p. fst p = c \<and> snd p = c) (zip g w)))"
    by (auto simp: dict_get_empty)
  from second_pass_run [of 0 g "map exact (zip g w)" fb1 "count_letters w Map.empty" used1]
    assms l1
  obtain fb2 where
    sp: "second_pass (count_letters w Map.empty) g 0 (map exact (zip g w)) fb1 used1 =
      Inr (presence (count_letters w Map.empty) (zip g (map exact (zip g w))) used1, fb2)"
    and l2: "length fb2 = length fb1"
    by auto
  show ?thesis
    using fp sp l1 l2 u1 by (auto simp: score_guess_def)
qed


lemma presence_length [simp]: "length (presence tc zs used) = length zs"
  by (induction tc zs used rule: presence.induct) (auto simp del: fun_upd_apply)

lemma presence_correct:
  "j < length zs \<Longrightarrow> (presence tc zs used ! j = Correct) = (snd (zs ! j) = Correct)"
proof (induction tc zs used arbitrary: j rule: presence.induct)
  case (1 tc used)
  then show ?case by simp
next
  case (2 tc letter st rest used)
  then show ?case by (cases j) (auto simp del: fun_upd_apply)
qed

lemma presence_no_pending: "Pending \<notin> set (presence tc zs used)"
  by (induction tc zs used rule: presence.induct) (auto simp del: fun_upd_apply)

lemma presence_bound:
  "fresh zs \<Longrightarrow> dict_get used c 0 \<le> dict_get tc c 0 \<Longrightarrow>
   dict_get used c 0
     + int (length (filter (\<lambda>p. fst p = c \<and> snd p = Present)
                      (zip (map fst zs) (presence tc zs used))))
   \<le> dict_get tc c 0"
proof (induction tc zs used rule: presence.induct)
  case (1 tc used)
  then show ?case by simp
next
  case (2 tc letter st rest used)
  have fr: "fresh rest" using "2.prems"(1) by (simp add: fresh_def)
  have st: "st = Correct \<or> st = Pending" using "2.prems"(1) by (simp add: fresh_def)
  show ?case
  proof (cases "st = Pending")
    case False
    with st "2.IH"(3) [OF False fr] "2.prems"(2) show ?thesis by simp
  next
    case True
    show ?thesis
    proof (cases "dict_get tc letter 0 - dict_get used letter 0 > 0")
      case av: True
      have "dict_get (used(letter \<mapsto> dict_get used letter 0 + 1)) c 0 \<le> dict_get tc c 0"
        using av "2.prems"(2) by simp
      from "2.IH"(1) [OF True av fr this] show ?thesis
        using True av by (simp del: fun_upd_apply split: if_splits)
    next
      case av: False
      from "2.IH"(2) [OF True av fr "2.prems"(2)] show ?thesis
        using True av by simp
    qed
  qed
qed

lemma presence_exhausted:
  "dict_get tc c 0 \<le> dict_get used c 0 \<Longrightarrow> j < length zs \<Longrightarrow> fst (zs ! j) = c \<Longrightarrow>
   snd (zs ! j) \<noteq> Present \<Longrightarrow> presence tc zs used ! j \<noteq> Present"
proof (induction tc zs used arbitrary: j rule: presence.induct)
  case (1 tc used)
  then show ?case by simp
next
  case (2 tc letter st rest used)
  show ?case
  proof (cases j)
    case 0
    with "2.prems" show ?thesis by auto
  next
    case (Suc k)
    have up: "dict_get tc c 0 \<le> dict_get (used(letter \<mapsto> dict_get used letter 0 + 1)) c 0"
      using "2.prems"(1) by auto
    show ?thesis
      using Suc "2.prems" "2.IH"(1) [of k] "2.IH"(2) [of k] "2.IH"(3) [of k] up
      by (auto simp del: dict_get_upd fun_upd_apply)
  qed
qed

lemma presence_prefix:
  "fresh zs \<Longrightarrow> i < j \<Longrightarrow> j < length zs \<Longrightarrow> fst (zs ! i) = fst (zs ! j) \<Longrightarrow>
   presence tc zs used ! i = Absent \<Longrightarrow> presence tc zs used ! j \<noteq> Present"
proof (induction tc zs used arbitrary: i j rule: presence.induct)
  case (1 tc used)
  then show ?case by simp
next
  case (2 tc letter st rest used)
  have fr: "fresh rest" using "2.prems"(1) by (simp add: fresh_def)
  have st: "st = Correct \<or> st = Pending" using "2.prems"(1) by (simp add: fresh_def)
  obtain k where j: "j = Suc k" using "2.prems"(2) by (cases j) auto
  have k: "k < length rest" using "2.prems"(3) j by simp
  have "rest ! k \<in> set rest" using k by simp
  with fr have "snd (rest ! k) = Correct \<or> snd (rest ! k) = Pending"
    unfolding fresh_def by blast
  then have nk: "snd (rest ! k) \<noteq> Present" by auto
  show ?case
  proof (cases i)
    case 0
    then have lk: "fst (rest ! k) = letter" using "2.prems"(4) j by simp
    from 0 "2.prems"(5) st have pend: "st = Pending"
      and av: "\<not> dict_get tc letter 0 - dict_get used letter 0 > 0"
      by (auto split: if_splits)
    have "dict_get tc letter 0 \<le> dict_get used letter 0" using av by simp
    from presence_exhausted [OF this k lk nk]
    show ?thesis using j pend av by simp
  next
    case (Suc i')
    with "2.prems" j have p: "i' < k" "fst (rest ! i') = fst (rest ! k)" by simp_all
    show ?thesis
      using Suc j "2.prems"(5) "2.IH"(1) [OF _ _ fr p(1) k p(2)]
        "2.IH"(2) [OF _ _ fr p(1) k p(2)] "2.IH"(3) [OF _ fr p(1) k p(2)]
      by (auto simp del: fun_upd_apply split: if_splits)
  qed
qed

lemma matches_le_count:
  "length (filter (\<lambda>p. fst p = c \<and> snd p = c) (zip g w)) \<le> count_list w c"
proof (induction w arbitrary: g)
  case Nil
  then show ?case by simp
next
  case (Cons a w)
  show ?case
  proof (cases g)
    case Nil
    then show ?thesis by simp
  next
    case (Cons b g')
    with Cons.IH [of g'] show ?thesis by auto
  qed
qed


lemma filter_length_split:
  "(\<forall>p \<in> set xs. P p = (A p \<or> B p)) \<Longrightarrow> (\<forall>p \<in> set xs. \<not> (A p \<and> B p)) \<Longrightarrow>
   length (filter P xs) = length (filter A xs) + length (filter B xs)"
  by (induction xs) auto

lemma filter_length_zip_cong:
  "length xs = length ys \<Longrightarrow> length ys = length zs \<Longrightarrow>
   (\<forall>i < length xs. P (xs ! i, ys ! i) = Q (xs ! i, zs ! i)) \<Longrightarrow>
   length (filter P (zip xs ys)) = length (filter Q (zip xs zs))"
proof (induction xs ys zs rule: list_induct3)
  case Nil
  then show ?case by simp
next
  case (Cons x xs y ys z zs)
  from Cons.prems have h: "P (x, y) = Q (x, z)" by auto
  from Cons.prems have "\<forall>i < length xs. P (xs ! i, ys ! i) = Q (xs ! i, zs ! i)"
    by (metis Suc_less_eq length_Cons nth_Cons_Suc)
  from Cons.IH [OF this] h show ?case by simp
qed

lemma exact_fresh: "fresh (zip g (map exact (zip g w)))"
  by (auto simp: fresh_def exact_def dest!: set_zip_rightD)

lemma score_guess_statuses:
  assumes len: "length w = length g"
  shows "\<exists>sts fb. score_guess w g = Inr (sts, fb)
    \<and> length sts = length g
    \<and> (\<forall>i < length g. (sts ! i = Correct) = (g ! i = w ! i))
    \<and> Pending \<notin> set sts
    \<and> (\<forall>c. length (filter (\<lambda>p. fst p = c \<and> snd p \<noteq> Absent) (zip g sts)) \<le> count_list w c)
    \<and> (\<forall>i j. i < j \<and> j < length g \<and> g ! i = g ! j \<and> sts ! i = Absent \<longrightarrow> sts ! j \<noteq> Present)"
proof -
  let ?tc = "count_letters w Map.empty"
  let ?zs = "zip g (map exact (zip g w))"
  from score_guess_run [OF len] obtain fb used where
    run: "score_guess w g = Inr (presence ?tc ?zs used, fb)"
    and used: "\<And>c. dict_get used c 0 =
      int (length (filter (\<lambda>p. fst p = c \<and> snd p = c) (zip g w)))"
    by blast
  let ?sts = "presence ?tc ?zs used"
  have lz: "length ?zs = length g" using len by simp
  have l: "length ?sts = length g" using lz by simp
  have fst_zs: "map fst ?zs = g" using len by (simp add: map_fst_zip)
  have corr: "(?sts ! i = Correct) = (g ! i = w ! i)" if "i < length g" for i
  proof -
    have "(?sts ! i = Correct) = (snd (?zs ! i) = Correct)"
      using that lz presence_correct [of i ?zs ?tc used] by simp
    also have "\<dots> = (g ! i = w ! i)"
      using that len by (simp add: exact_def)
    finally show ?thesis .
  qed
  have nopend: "Pending \<notin> set ?sts" by (rule presence_no_pending)
  have bound: "length (filter (\<lambda>p. fst p = c \<and> snd p \<noteq> Absent) (zip g ?sts)) \<le> count_list w c"
    for c
  proof -
    have tc: "dict_get ?tc c 0 = int (count_list w c)" by (rule count_letters_empty)
    have le: "dict_get used c 0 \<le> dict_get ?tc c 0"
      using matches_le_count [of c g w] by (simp add: used tc)
    from presence_bound [OF exact_fresh le, of g w]
    have b: "dict_get used c 0
        + int (length (filter (\<lambda>p. fst p = c \<and> snd p = Present) (zip g ?sts)))
        \<le> int (count_list w c)"
      by (simp add: fst_zs tc)
    have split: "length (filter (\<lambda>p. fst p = c \<and> snd p \<noteq> Absent) (zip g ?sts)) =
        length (filter (\<lambda>p. fst p = c \<and> snd p = Correct) (zip g ?sts))
        + length (filter (\<lambda>p. fst p = c \<and> snd p = Present) (zip g ?sts))"
    proof (rule filter_length_split)
      show "\<forall>p \<in> set (zip g ?sts). (fst p = c \<and> snd p \<noteq> Absent) =
          ((fst p = c \<and> snd p = Correct) \<or> (fst p = c \<and> snd p = Present))"
      proof
        fix p assume "p \<in> set (zip g ?sts)"
        then have "(fst p, snd p) \<in> set (zip g ?sts)" by simp
        then have "snd p \<in> set ?sts" by (rule set_zip_rightD)
        with nopend have "snd p \<noteq> Pending" by auto
        then show "(fst p = c \<and> snd p \<noteq> Absent) =
          ((fst p = c \<and> snd p = Correct) \<or> (fst p = c \<and> snd p = Present))"
          by (cases "snd p") auto
      qed
      show "\<forall>p \<in> set (zip g ?sts). \<not> ((fst p = c \<and> snd p = Correct) \<and> (fst p = c \<and> snd p = Present))"
        by auto
    qed
    have "length (filter (\<lambda>p. fst p = c \<and> snd p = Correct) (zip g ?sts)) =
        length (filter (\<lambda>p. fst p = c \<and> snd p = c) (zip g w))"
    proof (rule filter_length_zip_cong)
      show "length g = length ?sts" using l by simp
      show "length ?sts = length w" using l len by simp
      show "\<forall>i < length g. (fst (g ! i, ?sts ! i) = c \<and> snd (g ! i, ?sts ! i) = Correct) =
          (fst (g ! i, w ! i) = c \<and> snd (g ! i, w ! i) = c)"
        using corr by auto
    qed
    with split b used [of c] show ?thesis by simp
  qed
  have prefix: "?sts ! j \<noteq> Present"
    if "i < j" "j < length g" "g ! i = g ! j" "?sts ! i = Absent" for i j
  proof -
    have "fst (?zs ! i) = fst (?zs ! j)" using that len by simp
    from presence_prefix [OF exact_fresh that(1) _ this that(4)] that(2) lz
    show ?thesis by simp
  qed
  show ?thesis
    using run l corr nopend bound prefix by blast
qed


text \<open>
  C2. For target and guess of equal length the scorer returns a status sequence as long
  as the guess, and the number of positions marked correct is the number of positions
  where guess and target carry the same letter.  (The hypothesis that both are uppercase
  alphabetic is not needed.)
\<close>

theorem score_guess_length_correct:
  assumes "length target = length guess"
  shows "\<exists>sts fb. score_guess target guess = Inr (sts, fb)
    \<and> length sts = length guess
    \<and> card {i. i < length sts \<and> sts ! i = Correct}
        = card {i. i < length guess \<and> guess ! i = target ! i}"
proof -
  from score_guess_statuses [OF assms] obtain sts fb where
    r: "score_guess target guess = Inr (sts, fb)" and l: "length sts = length guess"
    and c: "\<forall>i < length guess. (sts ! i = Correct) = (guess ! i = target ! i)"
    by blast
  have "{i. i < length sts \<and> sts ! i = Correct} = {i. i < length guess \<and> guess ! i = target ! i}"
    using l c by auto
  with r l show ?thesis by simp
qed

theorem score_guess_length_correct_witness:
  "length ''APPLE'' = length ''PLANE''
   \<and> (\<exists>sts fb. score_guess ''APPLE'' ''PLANE'' = Inr (sts, fb)
        \<and> length sts = length ''PLANE''
        \<and> card {i. i < length sts \<and> sts ! i = Correct}
            = card {i. i < length ''PLANE'' \<and> ''PLANE'' ! i = ''APPLE'' ! i})"
proof -
  have h: "length ''APPLE'' = length ''PLANE''" by simp
  from score_guess_length_correct [OF h] h show ?thesis by blast
qed

text \<open>
  C3. Scoring the guess ALLOW against the target APPLE gives correct, present, absent,
  absent, absent.  In general, for a guess as long as the target: a position is correct
  exactly where the letters agree; for every letter, the positions of the guess holding
  it that are not absent are at most as many as its occurrences in the target (no
  over-counting); and among positions holding the same letter, none is present after an
  earlier one was found absent (earlier positions claim present first).
\<close>

theorem score_guess_duplicates:
  "score_guess ''APPLE'' ''ALLOW'' =
     Inr ([Correct, Present, Absent, Absent, Absent],
          [(CHR ''A'', Tick), (CHR ''L'', Tilde), (CHR ''L'', Cross),
           (CHR ''O'', Cross), (CHR ''W'', Cross)])
   \<and> (length w = length g \<longrightarrow>
        (\<exists>sts fb. score_guess w g = Inr (sts, fb)
          \<and> (\<forall>i < length g. (sts ! i = Correct) = (g ! i = w ! i))
          \<and> Pending \<notin> set sts
          \<and> (\<forall>c. length (filter (\<lambda>p. fst p = c \<and> snd p \<noteq> Absent) (zip g sts))
                  \<le> count_list w c)
          \<and> (\<forall>i j. i < j \<and> j < length g \<and> g ! i = g ! j \<and> sts ! i = Absent
                  \<longrightarrow> sts ! j \<noteq> Present)))"
proof (rule conjI)
  show "score_guess ''APPLE'' ''ALLOW'' =
     Inr ([Correct, Present, Absent, Absent, Absent],
          [(CHR ''A'', Tick), (CHR ''L'', Tilde), (CHR ''L'', Cross),
           (CHR ''O'', Cross), (CHR ''W'', Cross)])"
    by (simp add: score_guess_def dict_get_def)
next
  show "length w = length g \<longrightarrow>
        (\<exists>sts fb. score_guess w g = Inr (sts, fb)
          \<and> (\<forall>i < length g. (sts ! i = Correct) = (g ! i = w ! i))
          \<and> Pending \<notin> set sts
          \<and> (\<forall>c. length (filter (\<lambda>p. fst p = c \<and> snd p \<noteq> Absent) (zip g sts))
                  \<le> count_list w c)
          \<and> (\<forall>i j. i < j \<and> j < length g \<and> g ! i = g ! j \<and> sts ! i = Absent
                  \<longrightarrow> sts ! j \<noteq> Present))"
  proof
    assume "length w = length g"
    from score_guess_statuses [OF this] show "\<exists>sts fb. score_guess w g = Inr (sts, fb)
          \<and> (\<forall>i < length g. (sts ! i = Correct) = (g ! i = w ! i))
          \<and> Pending \<notin> set sts
          \<and> (\<forall>c. length (filter (\<lambda>p. fst p = c \<and> snd p \<noteq> Absent) (zip g sts))
                  \<le> count_list w c)
          \<and> (\<forall>i j. i < j \<and> j < length g \<and> g ! i = g ! j \<and> sts ! i = Absent
                  \<longrightarrow> sts ! j \<noteq> Present)"
      by blast
  qed
qed

theorem score_guess_duplicates_witness:
  "length ''SPEED'' = length ''EERIE''
   \<and> (\<exists>sts fb. score_guess ''SPEED'' ''EERIE'' = Inr (sts, fb)
          \<and> (\<forall>i < length ''EERIE''. (sts ! i = Correct) = (''EERIE'' ! i = ''SPEED'' ! i))
          \<and> Pending \<notin> set sts
          \<and> (\<forall>c. length (filter (\<lambda>p. fst p = c \<and> snd p \<noteq> Absent) (zip ''EERIE'' sts))
                  \<le> count_list ''SPEED'' c)
          \<and> (\<forall>i j. i < j \<and> j < length ''EERIE'' \<and> ''EERIE'' ! i = ''EERIE'' ! j
                    \<and> sts ! i = Absent \<longrightarrow> sts ! j \<noteq> Present))"
proof -
  have h: "length ''SPEED'' = length ''EERIE''" by simp
  from score_guess_duplicates [of "''SPEED''" "''EERIE''"] h show ?thesis by blast
qed

section \<open>Properties of the daily word\<close>

lemma be_bytes_length [simp]: "length (be_bytes n x) = n"
  by (simp add: be_bytes_def)

lemma digest_bytes_length:
  "length (case p of (a, b, c, d, e, f, g, h) \<Rightarrow>
      concat (map (\<lambda>x. be_bytes 4 (uint x)) [a, b, c, d, e, f, g, h :: w32])) = 32"
  by (cases p) (simp split: prod.split)

lemma sha256_length: "length (sha256 m) = 32"
  unfolding sha256_def Let_def by (rule digest_bytes_length)

lemma hex_digit_roundtrip:
  assumes "k < 16"
  shows "hex_digit_value (hex_digit k) = Some (int k)"
proof -
  from assms have "k = 0 \<or> k = 1 \<or> k = 2 \<or> k = 3 \<or> k = 4 \<or> k = 5 \<or> k = 6 \<or> k = 7
      \<or> k = 8 \<or> k = 9 \<or> k = 10 \<or> k = 11 \<or> k = 12 \<or> k = 13 \<or> k = 14 \<or> k = 15"
    by arith
  then show ?thesis
    by (elim disjE) (simp_all add: hex_digit_def hex_digit_value_def)
qed

lemma byte_split: "16 * int (unat b div 16) + int (unat b mod 16) = uint (b :: byte)"
proof -
  have "uint b = int (unat b)" by (rule uint_nat)
  also have "\<dots> = int (16 * (unat b div 16) + unat b mod 16)"
    by (simp only: mult_div_mod_eq)
  also have "\<dots> = 16 * int (unat b div 16) + int (unat b mod 16)"
    by (simp only: of_nat_add of_nat_mult of_nat_numeral)
  finally show ?thesis by (rule sym)
qed

lemma hex_digits_value_hexdigest:
  "hex_digits_value acc (hexdigest bs) = Some (foldl (\<lambda>a b. 256 * a + uint b) acc bs)"
proof (induction bs arbitrary: acc)
  case Nil
  then show ?case by (simp add: hexdigest_def)
next
  case (Cons b bs)
  have hi: "unat b div 16 < 16"
    using unsigned_less [of b, where ?'a = nat] by (simp add: less_mult_imp_div_less)
  have lo: "unat b mod 16 < 16" by simp
  have tl: "hexdigest (b # bs) =
      hex_digit (unat b div 16) # hex_digit (unat b mod 16) # hexdigest bs"
    by (simp add: hexdigest_def)
  have e: "16 * (16 * acc + int (unat b div 16)) + int (unat b mod 16) = 256 * acc + uint b"
    using byte_split [of b] by simp
  have "hex_digits_value acc (hexdigest (b # bs)) =
      hex_digits_value (16 * (16 * acc + int (unat b div 16)) + int (unat b mod 16)) (hexdigest bs)"
    by (simp add: tl hex_digit_roundtrip [OF hi] hex_digit_roundtrip [OF lo])
  also have "\<dots> = hex_digits_value (256 * acc + uint b) (hexdigest bs)"
    by (simp only: e)
  also have "\<dots> = Some (foldl (\<lambda>a b. 256 * a + uint b) (256 * acc + uint b) bs)"
    by (rule Cons.IH)
  finally show ?case by simp
qed

lemma hexdigest_take: "take (2 * k) (hexdigest bs) = hexdigest (take k bs)"
proof (induction bs arbitrary: k)
  case Nil
  then show ?case by (simp add: hexdigest_def)
next
  case (Cons b bs)
  show ?case
  proof (cases k)
    case 0
    then show ?thesis by (simp add: hexdigest_def)
  next
    case (Suc j)
    with Cons.IH [of j] show ?thesis by (simp add: hexdigest_def)
  qed
qed

lemma hexdigest_empty [simp]: "(hexdigest bs = []) = (bs = [])"
  by (cases bs) (simp_all add: hexdigest_def)

lemma be_value_bounds: "0 \<le> be_value bs \<and> be_value bs < 256 ^ length bs"
proof -
  have "0 \<le> foldl (\<lambda>a b. 256 * a + uint b) acc bs
      \<and> foldl (\<lambda>a b. 256 * a + uint b) acc bs < (acc + 1) * 256 ^ length bs"
    if "0 \<le> acc" for acc :: int and bs :: "byte list"
    using that
  proof (induction bs arbitrary: acc)
    case Nil
    then show ?case by simp
  next
    case (Cons b bs)
    have b: "0 \<le> uint b" "uint b < 256"
      using uint_bounded [of b] by simp_all
    have nn: "0 \<le> 256 * acc + uint b" using Cons.prems b by simp
    let ?r = "foldl (\<lambda>a b. 256 * a + uint b) (256 * acc + uint b) bs"
    from Cons.IH [OF nn] have lt: "?r < (256 * acc + uint b + 1) * 256 ^ length bs"
      and nonneg: "0 \<le> ?r"
      by simp_all
    have "256 * acc + uint b + 1 \<le> 256 * (acc + 1)" using b by simp
    then have "(256 * acc + uint b + 1) * 256 ^ length bs \<le> 256 * (acc + 1) * 256 ^ length bs"
      by (intro mult_right_mono) simp_all
    with lt have "?r < 256 * (acc + 1) * 256 ^ length bs" by linarith
    moreover have "256 * (acc + 1) * 256 ^ length bs = (acc + 1) * 256 ^ length (b # bs)"
      by simp
    ultimately have "?r < (acc + 1) * 256 ^ length (b # bs)" by (simp only:)
    with nonneg show ?case by simp
  qed
  from this [of 0 bs] show ?thesis by (simp add: be_value_def)
qed

lemma seed_of_digest:
  "int_base16 (take 8 (hexdigest (sha256 m))) = Some (be_value (take 4 (sha256 m)))"
proof -
  have "take 8 (hexdigest (sha256 m)) = hexdigest (take 4 (sha256 m))"
    using hexdigest_take [of 4 "sha256 m"] by simp
  moreover have "take 4 (sha256 m) \<noteq> []"
    using sha256_length [of m] by (cases "sha256 m") auto
  ultimately show ?thesis
    by (simp add: int_base16_def hex_digits_value_hexdigest be_value_def)
qed

text \<open>
  C4. On an empty word list \<open>select_daily_word\<close> fails with the empty-list error.  On a
  non-empty list and a date it hashes the date string with SHA-256, reads the first
  eight hexadecimal characters of the digest as the unsigned integer \<open>seed\<close> (the value
  of the first four digest bytes, below \<open>2 ^ 32\<close>), and returns the word at position
  \<open>seed mod len(words)\<close>, uppercased and trimmed.  The witness checks the date string
  of 15 June 2024, its seed and the word selected.
\<close>

theorem select_daily_word_selects:
  "select_daily_word [] date_arg t = Inl EmptyWords
   \<and> (words \<noteq> [] \<longrightarrow>
        (let digest = sha256 (encode (str_date d));
             seed = be_value (take 4 digest)
         in int_base16 (take 8 (hexdigest digest)) = Some seed
            \<and> 0 \<le> seed \<and> seed < 2 ^ 32
            \<and> nat (seed mod int (length words)) < length words
            \<and> select_daily_word words (Some d) t =
                Inr (strip (upper (words ! nat (seed mod int (length words)))))))"
proof (rule conjI)
  show "select_daily_word [] date_arg t = Inl EmptyWords"
    by (simp add: select_daily_word_def)
next
  show "words \<noteq> [] \<longrightarrow>
        (let digest = sha256 (encode (str_date d));
             seed = be_value (take 4 digest)
         in int_base16 (take 8 (hexdigest digest)) = Some seed
            \<and> 0 \<le> seed \<and> seed < 2 ^ 32
            \<and> nat (seed mod int (length words)) < length words
            \<and> select_daily_word words (Some d) t =
                Inr (strip (upper (words ! nat (seed mod int (length words))))))"
  proof
    assume ne: "words \<noteq> []"
    let ?digest = "sha256 (encode (str_date d))"
    let ?seed = "be_value (take 4 ?digest)"
    have s: "int_base16 (take 8 (hexdigest ?digest)) = Some ?seed"
      by (rule seed_of_digest)
    have l4: "length (take 4 ?digest) = 4"
      by (simp add: sha256_length)
    have "0 \<le> ?seed \<and> ?seed < 256 ^ length (take 4 ?digest)"
      by (rule be_value_bounds)
    then have b: "0 \<le> ?seed" "?seed < 2 ^ 32"
      unfolding l4 by simp_all
    have pos: "0 < int (length words)" using ne by simp
    have idx: "nat (?seed mod int (length words)) < length words"
      using pos pos_mod_bound [OF pos, of ?seed] pos_mod_sign [OF pos, of ?seed] by linarith
    have sel: "select_daily_word words (Some d) t =
        Inr (strip (upper (words ! nat (?seed mod int (length words)))))"
      using ne s by (simp add: select_daily_word_def Let_def)
    show "let digest = sha256 (encode (str_date d));
             seed = be_value (take 4 digest)
         in int_base16 (take 8 (hexdigest digest)) = Some seed
            \<and> 0 \<le> seed \<and> seed < 2 ^ 32
            \<and> nat (seed mod int (length words)) < length words
            \<and> select_daily_word words (Some d) t =
                Inr (strip (upper (words ! nat (seed mod int (length words)))))"
      unfolding Let_def using s b idx sel by blast
  qed
qed

theorem select_daily_word_selects_witness:
  "[''apple'', '' grape '', ''peach''] \<noteq> []
   \<and> str_date \<lparr>year = 2024, month = 6, day = 15\<rparr> = ''2024-06-15''
   \<and> int_base16 (take 8 (hexdigest (sha256 (encode ''2024-06-15'')))) = Some 243143980
   \<and> select_daily_word [''apple'', '' grape '', ''peach'']
         (Some \<lparr>year = 2024, month = 6, day = 15\<rparr>) \<lparr>year = 2025, month = 1, day = 1\<rparr>
       = Inr ''GRAPE''"
proof -
  let ?ws = "[''apple'', '' grape '', ''peach'']"
  let ?d = "\<lparr>year = 2024, month = 6, day = 15\<rparr>"
  have ne: "?ws \<noteq> []" by simp
  have sd: "str_date ?d = ''2024-06-15''" by code_simp
  have seed: "be_value (take 4 (sha256 (encode ''2024-06-15''))) = 243143980" by code_simp
  from select_daily_word_selects [of None "\<lparr>year = 2025, month = 1, day = 1\<rparr>" ?ws ?d] ne
  have a: "int_base16 (take 8 (hexdigest (sha256 (encode (str_date ?d))))) =
        Some (be_value (take 4 (sha256 (encode (str_date ?d)))))"
    and b: "select_daily_word ?ws (Some ?d) \<lparr>year = 2025, month = 1, day = 1\<rparr> =
        Inr (strip (upper (?ws ! nat (be_value (take 4 (sha256 (encode (str_date ?d))))
              mod int (length ?ws)))))"
    unfolding Let_def by blast+
  have c: "strip (upper (?ws ! nat (243143980 mod int (length ?ws)))) = ''GRAPE''"
    by code_simp
  show ?thesis
    using ne sd a b c unfolding sd seed by simp
qed

text \<open>
  C5. The result of \<open>select_daily_word\<close> on given words and a given date does not
  depend on the clock, the only other input of the function: two calls with the same
  words and date give the same result.  On a one-word list the result is that word,
  uppercased and trimmed, whatever the date.
\<close>

theorem select_daily_word_deterministic:
  "select_daily_word words (Some d) t1 = select_daily_word words (Some d) t2
   \<and> select_daily_word [w] date_arg t = Inr (strip (upper w))"
proof (rule conjI)
  show "select_daily_word words (Some d) t1 = select_daily_word words (Some d) t2"
    by (simp add: select_daily_word_def)
next
  show "select_daily_word [w] date_arg t = Inr (strip (upper w))"
    by (simp add: select_daily_word_def Let_def seed_of_digest)
qed

section \<open>Properties of the game\<close>

lemma score_guess_returns:
  "length word = length guess \<Longrightarrow> \<exists>fbk. score_guess word guess = Inr fbk"
  using score_guess_statuses [of word guess] by auto




lemma check_guess_valid:
  assumes "current_word g = Some word" "length (strip (upper raw)) = length word"
    "isalpha (strip (upper raw))"
  shows "\<exists>fbk fs'. check_guess w g raw =
     (Inr fbk,
      g\<lparr>attempts := attempts g @ [strip (upper raw)],
        game_over := game_over g \<or> strip (upper raw) = word
                      \<or> max_attempts g \<le> int (length (attempts g)) + 1,
        won := won g \<or> strip (upper raw) = word\<rparr>,
      fs')"
proof -
  from score_guess_returns [of word "strip (upper raw)"] assms(2)
  obtain fbk where "score_guess word (strip (upper raw)) = Inr fbk" by auto
  with assms show ?thesis
    by (auto simp: check_guess_def Let_def)
qed



lemma play_invariant:
  assumes "current_word g = Some word" "\<not> won g"
    "game_over g = (max_attempts g \<le> int (length (attempts g)))"
    "\<forall>raw \<in> set raws. length (strip (upper raw)) = length word
        \<and> isalpha (strip (upper raw)) \<and> strip (upper raw) \<noteq> word"
  shows "current_word (fst (play w g raws)) = Some word
    \<and> max_attempts (fst (play w g raws)) = max_attempts g
    \<and> length (attempts (fst (play w g raws))) = length (attempts g) + length raws
    \<and> \<not> won (fst (play w g raws))
    \<and> game_over (fst (play w g raws)) =
        (max_attempts g \<le> int (length (attempts g) + length raws))"
  using assms
proof (induction raws arbitrary: g w)
  case Nil
  then show ?case by simp
next
  case (Cons raw rest)
  let ?guess = "strip (upper raw)"
  let ?g1 = "g\<lparr>attempts := attempts g @ [?guess],
        game_over := game_over g \<or> ?guess = word
                      \<or> max_attempts g \<le> int (length (attempts g)) + 1,
        won := won g \<or> ?guess = word\<rparr>"
  from Cons.prems(4) have v: "length ?guess = length word" "isalpha ?guess" "?guess \<noteq> word"
    by simp_all
  from check_guess_valid [OF Cons.prems(1) v(1) v(2), of w]
  obtain fbk fs' where cg: "check_guess w g raw = (Inr fbk, ?g1, fs')" by blast
  have p: "play w g (raw # rest) = play (w\<lparr>files := fs'\<rparr>) ?g1 rest"
    by (simp add: cg)
  have a1: "current_word ?g1 = Some word" using Cons.prems(1) by simp
  have a2: "\<not> won ?g1" using Cons.prems(2) v(3) by simp
  have a3: "game_over ?g1 = (max_attempts ?g1 \<le> int (length (attempts ?g1)))"
    using Cons.prems(3) v(3) by auto
  have a4: "\<forall>raw \<in> set rest. length (strip (upper raw)) = length word
        \<and> isalpha (strip (upper raw)) \<and> strip (upper raw) \<noteq> word"
    using Cons.prems(4) by simp
  from Cons.IH [OF a1 a2 a3 a4, of "w\<lparr>files := fs'\<rparr>"]
  show ?case unfolding p by simp
qed


text \<open>
  C6. A started session with \<open>max_attempts = N\<close>, \<open>N \<ge> 1\<close>, receives valid guesses none
  of which is the target.  After the first \<open>k\<close> of them it holds \<open>k\<close> attempts, is not
  won, and is over exactly when \<open>N \<le> k\<close>: it is running after each of the first
  \<open>N - 1\<close> guesses and lost from the \<open>N\<close>-th on.
\<close>

theorem attempt_budget:
  assumes "current_word g = Some word" "attempts g = []" "\<not> game_over g" "\<not> won g"
    and "1 \<le> max_attempts g"
    and "\<forall>raw \<in> set raws. length (strip (upper raw)) = length word
        \<and> isalpha (strip (upper raw)) \<and> strip (upper raw) \<noteq> word"
    and "k \<le> length raws"
  shows "length (attempts (fst (play w g (take k raws)))) = k
    \<and> \<not> won (fst (play w g (take k raws)))
    \<and> game_over (fst (play w g (take k raws))) = (max_attempts g \<le> int k)"
proof -
  have go: "game_over g = (max_attempts g \<le> int (length (attempts g)))"
    using assms(2,3,5) by simp
  have v: "\<forall>raw \<in> set (take k raws). length (strip (upper raw)) = length word
        \<and> isalpha (strip (upper raw)) \<and> strip (upper raw) \<noteq> word"
    using assms(6) by (meson in_set_takeD)
  from play_invariant [OF assms(1) assms(4) go v, of w] assms(2,7)
  show ?thesis by (simp add: min_absorb2)
qed

theorem attempt_budget_witness:
  "start_game demo_world 0 (init [''apple''] 2 None ''anonymous'' False) = Inr (demo_started 2)
   \<and> current_word (demo_started 2) = Some ''APPLE'' \<and> attempts (demo_started 2) = []
   \<and> \<not> game_over (demo_started 2) \<and> \<not> won (demo_started 2)
   \<and> 1 \<le> max_attempts (demo_started 2)
   \<and> strip (upper ''grape'') = ''GRAPE'' \<and> isalpha ''GRAPE''
   \<and> strip (upper '' Peach '') = ''PEACH'' \<and> isalpha ''PEACH''
   \<and> (1::nat) \<le> length [''grape'', '' Peach ''] \<and> (2::nat) \<le> length [''grape'', '' Peach '']
   \<and> \<not> game_over (fst (play demo_world (demo_started 2) (take 1 [''grape'', '' Peach ''])))
   \<and> game_over (fst (play demo_world (demo_started 2) (take 2 [''grape'', '' Peach ''])))
   \<and> \<not> won (fst (play demo_world (demo_started 2) (take 2 [''grape'', '' Peach ''])))
   \<and> length (attempts (fst (play demo_world (demo_started 2) (take 2 [''grape'', '' Peach ''])))) = 2"
proof -
  have st: "start_game demo_world 0 (init [''apple''] 2 None ''anonymous'' False)
      = Inr (demo_started 2)"
  proof -
    have "strip (upper ''apple'') = ''APPLE''" by code_simp
    then show ?thesis by (simp add: start_game_def init_def demo_started_def)
  qed
  have h1: "current_word (demo_started 2) = Some ''APPLE''"
    and h2: "attempts (demo_started 2) = []"
    and h3: "\<not> game_over (demo_started 2)"
    and h4: "\<not> won (demo_started 2)"
    and h5: "1 \<le> max_attempts (demo_started 2)"
    by (simp_all add: demo_started_def init_def)
  have n1: "strip (upper ''grape'') = ''GRAPE''" and n2: "strip (upper '' Peach '') = ''PEACH''"
    and a1: "isalpha ''GRAPE''" and a2: "isalpha ''PEACH''"
    by code_simp+
  have h6: "\<forall>raw \<in> set [''grape'', '' Peach ''].
         length (strip (upper raw)) = length ''APPLE''
         \<and> isalpha (strip (upper raw)) \<and> strip (upper raw) \<noteq> ''APPLE''"
    using a1 a2 by (simp add: n1 n2)
  have k1: "(1::nat) \<le> length [''grape'', '' Peach '']"
    and k2: "(2::nat) \<le> length [''grape'', '' Peach '']" by simp_all
  have m: "max_attempts (demo_started 2) = 2" by (simp add: demo_started_def init_def)
  from attempt_budget [OF h1 h2 h3 h4 h5 h6 k1, of demo_world]
    attempt_budget [OF h1 h2 h3 h4 h5 h6 k2, of demo_world]
  show ?thesis
    using st h1 h2 h3 h4 h5 n1 n2 a1 a2 unfolding m by simp
qed









section \<open>Properties of the score store\<close>

lemma mkdir_each_keeps:
  "mkdir_each fs qs = Inr fs1 \<Longrightarrow> is_dir fs q \<Longrightarrow> is_dir fs1 q"
proof (induction qs arbitrary: fs)
  case Nil
  then show ?case by simp
next
  case (Cons a qs)
  show ?case
  proof (cases "is_dir fs a")
    case True
    with Cons show ?thesis by simp
  next
    case False
    with Cons.prems(1) have ne: "\<not> path_exists fs a"
      and r: "mkdir_each (fs(a \<mapsto> Dir)) qs = Inr fs1"
      by (auto split: if_splits)
    have "is_dir (fs(a \<mapsto> Dir)) q"
      using Cons.prems(2) by (auto simp: is_dir_def)
    from Cons.IH [OF r this] show ?thesis .
  qed
qed

lemma mkdir_each_makes:
  "mkdir_each fs qs = Inr fs1 \<Longrightarrow> q \<in> set qs \<Longrightarrow> is_dir fs1 q"
proof (induction qs arbitrary: fs)
  case Nil
  then show ?case by simp
next
  case (Cons a qs)
  show ?case
  proof (cases "is_dir fs a")
    case True
    with Cons.prems(1) have r: "mkdir_each fs qs = Inr fs1" by simp
    show ?thesis
    proof (cases "q = a")
      case True
      with \<open>is_dir fs a\<close> mkdir_each_keeps [OF r] show ?thesis by simp
    next
      case False
      with Cons.prems(2) Cons.IH [OF r] show ?thesis by simp
    qed
  next
    case False
    with Cons.prems(1) have r: "mkdir_each (fs(a \<mapsto> Dir)) qs = Inr fs1"
      by (auto split: if_splits)
    show ?thesis
    proof (cases "q = a")
      case True
      have "is_dir (fs(a \<mapsto> Dir)) a" by (simp add: is_dir_def)
      from mkdir_each_keeps [OF r this] True show ?thesis by simp
    next
      case False
      with Cons.prems(2) Cons.IH [OF r] show ?thesis by simp
    qed
  qed
qed

lemma mkdir_parents_is_dir:
  assumes "mkdir_parents fs q = Inr fs1"
  shows "is_dir fs1 q"
proof (cases "q = []")
  case True
  then show ?thesis by (simp add: is_dir_def)
next
  case False
  then have "length q \<in> set [1 ..< Suc (length q)]" by (cases q) auto
  then have "take (length q) q \<in> set (map (\<lambda>n. take n q) [1 ..< Suc (length q)])"
    unfolding set_map by (rule imageI)
  then have "q \<in> set (map (\<lambda>n. take n q) [1 ..< Suc (length q)])" by simp
  with assms show ?thesis
    unfolding mkdir_parents_def by (rule mkdir_each_makes)
qed

lemma write_text_ok:
  "is_dir fs1 (parent p) \<Longrightarrow> \<not> is_dir fs1 p \<Longrightarrow>
   write_text fs1 p text = Inr (fs1(p \<mapsto> File text))"
  by (auto simp: write_text_def is_dir_def path_exists_def)

lemma save_score_ok:
  assumes "validate_score r = Inr d" "load_scores js fs p = Inr old"
    "mkdir_parents fs (parent p) = Inr fs1" "\<not> is_dir fs1 p"
  shows "save_score js fs p r =
    (Inr (), fs1(p \<mapsto> File (dumps js (PList (old @ [r])))))"
  using assms write_text_ok [OF mkdir_parents_is_dir [OF assms(3)] assms(4)]
  by (simp add: save_score_def)


text \<open>
  C8, as stated, fails in its second part: a file that exists and is empty (or holds only
  blanks) is not valid JSON, and \<open>load_scores\<close> returns the empty sequence for it
  instead of failing.
\<close>

theorem load_scores_blank_counterexample:
  "path_exists (store_with []) demo_path
   \<and> read_text (store_with []) demo_path = Inr []
   \<and> loads json_ref [] = None
   \<and> load_scores json_ref (store_with []) demo_path = Inr []"
  by code_simp


text \<open>
  C8, amended.  \<open>load_scores\<close> returns the empty sequence when the path does not exist,
  and also when it is a file whose content, trimmed, is empty.  It fails when the path
  exists and cannot be read as a file, and when the trimmed content is not empty and is
  either not valid JSON or valid JSON that is not a list.  When the trimmed content is
  a JSON list, that list is returned.  The statement holds for every JSON library
  \<open>js\<close>.
\<close>

theorem load_scores_cases:
  "(\<not> path_exists fs p \<longrightarrow> load_scores js fs p = Inr [])
   \<and> (read_text fs p = Inr content \<and> strip content = [] \<longrightarrow> load_scores js fs p = Inr [])
   \<and> (path_exists fs p \<and> read_text fs p = Inl e \<longrightarrow>
         load_scores js fs p = Inl UnexpectedLoadError)
   \<and> (read_text fs p = Inr content \<and> strip content \<noteq> [] \<and> loads js (strip content) = None \<longrightarrow>
         load_scores js fs p = Inl LoadError)
   \<and> (read_text fs p = Inr content \<and> strip content \<noteq> [] \<and> loads js (strip content) = Some v
         \<and> (\<forall>scores. v \<noteq> PList scores) \<longrightarrow> load_scores js fs p = Inl LoadError)
   \<and> (read_text fs p = Inr content \<and> strip content \<noteq> [] \<and> loads js (strip content) = Some (PList scores)
         \<longrightarrow> load_scores js fs p = Inr scores)"
proof -
  have pe: "path_exists fs p" if "read_text fs p = Inr content" for content
    using that by (auto simp: read_text_def path_exists_def split: if_splits option.splits)
  show ?thesis
    by (auto simp: load_scores_def Let_def pe split: pyval.splits)
qed

theorem load_scores_cases_witness:
  "\<not> path_exists Map.empty demo_path \<and> load_scores json_ref Map.empty demo_path = Inr []
   \<and> read_text (store_with '' '') demo_path = Inr '' '' \<and> strip '' '' = []
   \<and> load_scores json_ref (store_with '' '') demo_path = Inr []
   \<and> path_exists (store_with []) [''data''] \<and> read_text (store_with []) [''data''] = Inl IsADirectoryError
   \<and> load_scores json_ref (store_with []) [''data''] = Inl UnexpectedLoadError
   \<and> read_text (store_with ''oops'') demo_path = Inr ''oops'' \<and> loads json_ref ''oops'' = None
   \<and> load_scores json_ref (store_with ''oops'') demo_path = Inl LoadError
   \<and> read_text (store_with ''{}'') demo_path = Inr ''{}'' \<and> loads json_ref ''{}'' = Some (PDict [])
   \<and> load_scores json_ref (store_with ''{}'') demo_path = Inl LoadError
   \<and> read_text (store_with ''[1]'') demo_path = Inr ''[1]'' \<and> loads json_ref ''[1]'' = Some (PList [PInt 1])
   \<and> load_scores json_ref (store_with ''[1]'') demo_path = Inr [PInt 1]"
proof -
  have a: "\<not> path_exists Map.empty demo_path" by code_simp
  have b: "read_text (store_with '' '') demo_path = Inr '' ''" "strip '' '' = []" by code_simp+
  have c: "path_exists (store_with []) [''data'']"
    "read_text (store_with []) [''data''] = Inl IsADirectoryError" by code_simp+
  have d: "read_text (store_with ''oops'') demo_path = Inr ''oops''"
    "strip ''oops'' = ''oops''" "loads json_ref ''oops'' = None" by code_simp+
  have e: "read_text (store_with ''{}'') demo_path = Inr ''{}''"
    "strip ''{}'' = ''{}''" "loads json_ref ''{}'' = Some (PDict [])" by code_simp+
  have f: "read_text (store_with ''[1]'') demo_path = Inr ''[1]''"
    "strip ''[1]'' = ''[1]''" "loads json_ref ''[1]'' = Some (PList [PInt 1])" by code_simp+
  from load_scores_cases [where fs = Map.empty and p = demo_path and js = json_ref] a
  have 1: "load_scores json_ref Map.empty demo_path = Inr []" by blast
  from load_scores_cases [where fs = "store_with '' ''" and p = demo_path and content = "'' ''" and js = json_ref] b
  have 2: "load_scores json_ref (store_with '' '') demo_path = Inr []" by blast
  from load_scores_cases [where fs = "store_with []" and p = "[''data'']" and e = IsADirectoryError and js = json_ref] c
  have 3: "load_scores json_ref (store_with []) [''data''] = Inl UnexpectedLoadError" by blast
  from load_scores_cases [where fs = "store_with ''oops''" and p = demo_path and content = "''oops''" and js = json_ref] d
  have 4: "load_scores json_ref (store_with ''oops'') demo_path = Inl LoadError" by simp
  from load_scores_cases [where fs = "store_with ''{}''" and p = demo_path and content = "''{}''" and js = json_ref and v = "PDict []"] e
  have 5: "load_scores json_ref (store_with ''{}'') demo_path = Inl LoadError" by simp
  from load_scores_cases [where fs = "store_with ''[1]''" and p = demo_path and content = "''[1]''" and js = json_ref and scores = "[PInt 1]"] f
  have 6: "load_scores json_ref (store_with ''[1]'') demo_path = Inr [PInt 1]" by simp
  show ?thesis using a b c d e f 1 2 3 4 5 6 by simp
qed






text \<open>
  C10. The validation of \<open>save_score\<close> accepts a boolean in the field \<open>attempts\<close>:
  \<open>isinstance(True, int)\<close> holds and \<open>True < 0\<close> does not.  The record of the claim
  passes the validation, as does every record with string fields and a boolean in
  \<open>attempts\<close>, and where the store can be written it is persisted, appended to the
  scores already there.
\<close>

theorem bool_attempts_accepted:
  "validate_score (bool_record True) =
     Inr [(''player'', PStr ''p''), (''word'', PStr ''W''), (''attempts'', PBool True),
          (''won'', PBool True), (''date'', PStr ''2024-01-01T12:00:00Z'')]
   \<and> isinstance_int (PBool b) \<and> \<not> int_value (PBool b) < 0
   \<and> (\<exists>d. validate_score (PDict [(''player'', PStr pl), (''word'', PStr wd),
         (''attempts'', PBool b), (''won'', PBool wn), (''date'', PStr dt)]) = Inr d)
   \<and> (load_scores js fs p = Inr old \<and> mkdir_parents fs (parent p) = Inr fs1
        \<and> \<not> is_dir fs1 p \<longrightarrow>
        save_score js fs p (bool_record True) =
          (Inr (), fs1(p \<mapsto> File (dumps js (PList (old @ [bool_record True]))))))"
proof -
  have v: "validate_score (bool_record True) =
     Inr [(''player'', PStr ''p''), (''word'', PStr ''W''), (''attempts'', PBool True),
          (''won'', PBool True), (''date'', PStr ''2024-01-01T12:00:00Z'')]"
    by (simp add: validate_score_def bool_record_def required_fields_def isinstance_str_def
        isinstance_int_def isinstance_bool_def int_value_def)
  have g: "\<exists>d. validate_score (PDict [(''player'', PStr pl), (''word'', PStr wd),
         (''attempts'', PBool b), (''won'', PBool wn), (''date'', PStr dt)]) = Inr d"
    by (simp add: validate_score_def required_fields_def isinstance_str_def
        isinstance_int_def isinstance_bool_def int_value_def)
  have i: "isinstance_int (PBool b) \<and> \<not> int_value (PBool b) < 0"
    by (simp add: isinstance_int_def int_value_def)
  have s: "load_scores js fs p = Inr old \<and> mkdir_parents fs (parent p) = Inr fs1
        \<and> \<not> is_dir fs1 p \<longrightarrow>
        save_score js fs p (bool_record True) =
          (Inr (), fs1(p \<mapsto> File (dumps js (PList (old @ [bool_record True])))))"
    using save_score_ok [OF v] by blast
  show ?thesis using v g i s by blast
qed

theorem bool_attempts_accepted_witness:
  "load_scores json_ref Map.empty demo_path = Inr []
   \<and> mkdir_parents Map.empty (parent demo_path) = Inr [[''data''] \<mapsto> Dir]
   \<and> \<not> is_dir [[''data''] \<mapsto> Dir] demo_path
   \<and> fst (save_score json_ref Map.empty demo_path (bool_record True)) = Inr ()
   \<and> snd (save_score json_ref Map.empty demo_path (bool_record True)) demo_path =
        Some (File (dumps json_ref (PList [bool_record True])))
   \<and> load_scores json_ref (snd (save_score json_ref Map.empty demo_path (bool_record True)))
        demo_path = Inr [bool_record True]"
proof -
  have l: "load_scores json_ref Map.empty demo_path = Inr []" by code_simp
  have m: "mkdir_parents Map.empty (parent demo_path) = Inr [[''data''] \<mapsto> Dir]"
    by (simp add: mkdir_parents_def parent_def demo_path_def is_dir_def path_exists_def)
  have n: "\<not> is_dir [[''data''] \<mapsto> Dir] demo_path" by code_simp
  from bool_attempts_accepted [of _ _ _ _ _ json_ref Map.empty demo_path "[]" "[[''data''] \<mapsto> Dir]"]
    l m n
  have s: "save_score json_ref Map.empty demo_path (bool_record True) =
      (Inr (), [[''data''] \<mapsto> Dir, demo_path \<mapsto> File (dumps json_ref (PList [bool_record True]))])"
    by simp
  have r: "load_scores json_ref (snd (save_score json_ref Map.empty demo_path (bool_record True)))
        demo_path = Inr [bool_record True]"
    by code_simp
  show ?thesis using l m n r by (simp add: s)
qed

end
